theory Spec2Isabelle
  imports Main "HOL-Library.Sublist" "HOL-Library.Char_ord"
begin

section \<open>Strings and characters\<close>

text \<open>
  The program works on JavaScript strings. They are modelled as \<^typ>\<open>string\<close>, a list of
  8-bit characters, read as the code units below 256 (the Latin-1 range): every function
  below does on such a string what the JavaScript function does on the string with the
  same code units.
\<close>

definition dquote :: char where
  "dquote = CHR 0x22"

definition comma :: char where
  "comma = CHR 0x2C"

definition newline :: char where
  "newline = CHR 0x0A"

definition creturn :: char where
  "creturn = CHR 0x0D"

definition slash :: char where
  "slash = CHR 0x2F"

definition pipe :: char where
  "pipe = CHR 0x7C"

definition atsign :: char where
  "atsign = CHR 0x40"

text \<open>\<open>text[i + 1] === c\<close>: the next code unit, \<open>undefined\<close> at the end of the text.\<close>

fun nextIs :: "char \<Rightarrow> string \<Rightarrow> bool" where
  "nextIs c [] = False"
| "nextIs c (d # ds) = (d = c)"

text \<open>
  \<open>String.prototype.toLowerCase\<close> on one code unit below 256: the letters A to Z and the
  accented capitals from 192 to 222 (215, the multiplication sign, apart) move up by 32,
  which sets the bit of weight 32, clear in all of them.
\<close>

definition isUpperCase :: "char \<Rightarrow> bool" where
  "isUpperCase c =
     ((CHR ''A'' \<le> c \<and> c \<le> CHR ''Z'') \<or> (CHR 0xC0 \<le> c \<and> c \<le> CHR 0xDE \<and> c \<noteq> CHR 0xD7))"

definition toLowerCase_char :: "char \<Rightarrow> char" where
  "toLowerCase_char c =
     (if isUpperCase c
      then (case c of Char b0 b1 b2 b3 b4 b5 b6 b7 \<Rightarrow> Char b0 b1 b2 b3 b4 True b6 b7)
      else c)"

definition toLowerCase :: "string \<Rightarrow> string" where
  "toLowerCase s = map toLowerCase_char s"

text \<open>
  \<open>String.prototype.trim\<close> removes white space and line terminators at both ends;
  below 256 these are the code units 9 to 13, 32 and 160.
\<close>

definition isWhiteSpace :: "char \<Rightarrow> bool" where
  "isWhiteSpace c = ((CHR 0x09 \<le> c \<and> c \<le> CHR 0x0D) \<or> c = CHR 0x20 \<or> c = CHR 0xA0)"

definition trim :: "string \<Rightarrow> string" where
  "trim s = rev (dropWhile isWhiteSpace (rev (dropWhile isWhiteSpace s)))"

text \<open>\<open>String.prototype.includes\<close>: the second string occurs in the first.\<close>

fun includes_str :: "string \<Rightarrow> string \<Rightarrow> bool" where
  "includes_str [] t = (t = [])"
| "includes_str (c # cs) t = (prefix t (c # cs) \<or> includes_str cs t)"

text \<open>\<open>Array.prototype.join\<close> and \<open>String.prototype.split\<close> with a separator.\<close>

fun joinWith :: "string \<Rightarrow> string list \<Rightarrow> string" where
  "joinWith sep [] = []"
| "joinWith sep [x] = x"
| "joinWith sep (x # y # ys) = x @ sep @ joinWith sep (y # ys)"

fun splitOn :: "char \<Rightarrow> string \<Rightarrow> string \<Rightarrow> string list" where
  "splitOn sep [] cur = [cur]"
| "splitOn sep (c # cs) cur =
     (if c = sep then cur # splitOn sep cs [] else splitOn sep cs (cur @ [c]))"

section \<open>The CSV tokenizer (\<open>parseCSV\<close>)\<close>

text \<open>
  The \<open>for\<close> loop of \<open>parseCSV\<close>, on the text that is still to be read. The state is the
  one of the source: the finished rows, the current row, the current field and the quote
  flag. Where the source does \<open>i++\<close> inside the body, the loop goes on after the next
  code unit.
\<close>

fun parseCSV_loop ::
  "string \<Rightarrow> string list list \<Rightarrow> string list \<Rightarrow> string \<Rightarrow> bool
    \<Rightarrow> string list list \<times> string list \<times> string" where
  "parseCSV_loop [] rows row field inQuotes = (rows, row, field)"
| "parseCSV_loop (c # cs) rows row field inQuotes =
     (if c = dquote then
        (if inQuotes \<and> nextIs dquote cs
         then parseCSV_loop (tl cs) rows row (field @ [dquote]) inQuotes
         else parseCSV_loop cs rows row field (\<not> inQuotes))
      else if c = comma \<and> \<not> inQuotes then
        parseCSV_loop cs rows (row @ [field]) [] inQuotes
      else if (c = newline \<or> c = creturn) \<and> \<not> inQuotes then
        (if c = creturn \<and> nextIs newline cs
         then parseCSV_loop (tl cs) (rows @ [row @ [field]]) [] [] inQuotes
         else parseCSV_loop cs (rows @ [row @ [field]]) [] [] inQuotes)
      else parseCSV_loop cs rows row (field @ [c]) inQuotes)"

definition parseCSV :: "string \<Rightarrow> string list list" where
  "parseCSV text =
     (case parseCSV_loop text [] [] [] False of
        (rows, row, field) \<Rightarrow>
          if 0 < length field \<or> 0 < length row then rows @ [row @ [field]] else rows)"

section \<open>The column mapper (\<open>detectMapping\<close>)\<close>

datatype field = Title | Url | Username | Password | Notes | OtpAuth

definition FIELD_SYNONYMS :: "(field \<times> string list) list" where
  "FIELD_SYNONYMS =
     [(Title, [''title'', ''name'', ''nom'', ''item'', ''account'']),
      (Url, [''url'', ''website'', ''site'', ''address'', ''webaddress'', ''adresse'']),
      (Username, [''username'', ''login'', ''email'', ''e-mail'', ''user'', ''utilisateur'']),
      (Password, [''password'', ''motdepasse'', ''passcode'']),
      (Notes, [''notes'', ''note'', ''remarks'', ''comment'', ''commentaires'', ''remarques'']),
      (OtpAuth, [''otp'', ''totp'', ''twofactor'', ''otpAuth''])]"

text \<open>\<open>s.toLowerCase().replace(/[^a-z0-9]/g, '')\<close>\<close>

definition isLowerAlnum :: "char \<Rightarrow> bool" where
  "isLowerAlnum c = ((CHR ''a'' \<le> c \<and> c \<le> CHR ''z'') \<or> (CHR ''0'' \<le> c \<and> c \<le> CHR ''9''))"

definition normalizeHeader :: "string \<Rightarrow> string" where
  "normalizeHeader s = filter isLowerAlnum (toLowerCase s)"

text \<open>
  The two nested \<open>for\<close> loops of the callback: the synonyms of one field in order, the
  fields in the order of the table. The loops stop at the first synonym that the
  normalized header includes, and the callback returns there.
\<close>

fun matchSynonyms :: "string \<Rightarrow> string list \<Rightarrow> bool" where
  "matchSynonyms normalized [] = False"
| "matchSynonyms normalized (syn # syns) =
     (if includes_str normalized (normalizeHeader syn) then True
      else matchSynonyms normalized syns)"

fun matchProps :: "string \<Rightarrow> (field \<times> string list) list \<Rightarrow> field option" where
  "matchProps normalized [] = None"
| "matchProps normalized ((prop, synonyms) # rest) =
     (if matchSynonyms normalized synonyms then Some prop
      else matchProps normalized rest)"

text \<open>
  The callback of \<open>headers.forEach\<close> on the state \<open>(map, usedProps)\<close> (here
  \<open>colMap\<close> for \<open>map\<close>): at the first match the field is assigned if it is not used
  yet, and the callback returns in both cases.
\<close>

definition detectHeader ::
  "string \<Rightarrow> nat \<Rightarrow> (nat \<rightharpoonup> field) \<times> field set \<Rightarrow> (nat \<rightharpoonup> field) \<times> field set" where
  "detectHeader header idx st =
     (case st of (colMap, usedProps) \<Rightarrow>
        (case matchProps (normalizeHeader header) FIELD_SYNONYMS of
           None \<Rightarrow> (colMap, usedProps)
         | Some prop \<Rightarrow>
             if prop \<notin> usedProps then (colMap(idx \<mapsto> prop), insert prop usedProps)
             else (colMap, usedProps)))"

fun detectMapping_loop ::
  "string list \<Rightarrow> nat \<Rightarrow> (nat \<rightharpoonup> field) \<times> field set \<Rightarrow> (nat \<rightharpoonup> field) \<times> field set" where
  "detectMapping_loop [] idx st = st"
| "detectMapping_loop (header # headers) idx st =
     detectMapping_loop headers (Suc idx) (detectHeader header idx st)"

definition detectMapping :: "string list \<Rightarrow> (nat \<rightharpoonup> field)" where
  "detectMapping headers = fst (detectMapping_loop headers 0 (Map.empty, {}))"

text \<open>
  For the proofs: the field that the two loops find for one header, and what the state of
  \<open>detectMapping\<close> is after the headers \<open>hs\<close>.
\<close>

definition firstMatch :: "string \<Rightarrow> field option" where
  "firstMatch header = matchProps (normalizeHeader header) FIELD_SYNONYMS"

definition mappingInv :: "string list \<Rightarrow> (nat \<rightharpoonup> field) \<times> field set \<Rightarrow> bool" where
  "mappingInv hs st \<longleftrightarrow>
     (\<forall>i p. fst st i = Some p \<longleftrightarrow>
        i < length hs \<and> firstMatch (hs ! i) = Some p \<and> (\<forall>j<i. firstMatch (hs ! j) \<noteq> Some p))
     \<and> snd st = {p. \<exists>j<length hs. firstMatch (hs ! j) = Some p}"

section \<open>The record normalizer\<close>

text \<open>
  The test \<open>/^https?:\/\//i\<close>: under the \<open>i\<close> flag a code unit matches a letter of the
  pattern when it is that letter or its capital, 32 below.
\<close>

definition matchesCI :: "char \<Rightarrow> char \<Rightarrow> bool" where
  "matchesCI p c =
     (c = p \<or>
      (CHR ''a'' \<le> p \<and> p \<le> CHR ''z'' \<and>
       c = (case p of Char b0 b1 b2 b3 b4 b5 b6 b7 \<Rightarrow> Char b0 b1 b2 b3 b4 False b6 b7)))"

fun startsWithCI :: "string \<Rightarrow> string \<Rightarrow> bool" where
  "startsWithCI [] s = True"
| "startsWithCI (p # ps) [] = False"
| "startsWithCI (p # ps) (c # cs) = (matchesCI p c \<and> startsWithCI ps cs)"

definition hasHttpScheme :: "string \<Rightarrow> bool" where
  "hasHttpScheme s = (startsWithCI ''http://'' s \<or> startsWithCI ''https://'' s)"

text \<open>\<open>s.replace(/\/$/, '')\<close>\<close>

definition stripTrailingSlash :: "string \<Rightarrow> string" where
  "stripTrailingSlash s = (if s \<noteq> [] \<and> last s = slash then butlast s else s)"

definition normaliseUrl :: "string \<Rightarrow> string" where
  "normaliseUrl url =
     (if url = [] then []
      else
        let trimmed = trim url;
            trimmed = (if trimmed \<noteq> [] \<and> \<not> hasHttpScheme trimmed
                       then ''https://'' @ trimmed else trimmed)
        in stripTrailingSlash trimmed)"

text \<open>
  \<open>extractDomain\<close> reads the host name through the platform's \<open>URL\<close> class, which is
  not code of the program: \<open>urlHostname\<close> stands for \<open>new URL(s).hostname\<close>, and is
  \<open>None\<close> where the constructor throws.
\<close>

definition secondLevelTlds :: "string list" where
  "secondLevelTlds = [''co'', ''com'', ''gov'', ''ac'', ''edu'', ''net'', ''org'']"

definition extractDomain :: "(string \<Rightarrow> string option) \<Rightarrow> string \<Rightarrow> string" where
  "extractDomain urlHostname urlString =
     (case urlHostname urlString of
        None \<Rightarrow> []
      | Some hostname \<Rightarrow>
          let host = toLowerCase hostname;
              parts = splitOn (CHR ''.'') host []
          in if length parts \<le> 2 then host
             else if parts ! (length parts - 2) \<in> set secondLevelTlds
             then joinWith ''.'' (drop (length parts - 3) parts)
             else joinWith ''.'' (drop (length parts - 2) parts))"

record entry =
  title :: string
  url :: string
  username :: string
  password :: string
  "notes" :: string
  otpAuth :: string
  domain :: string

definition emptyEntry :: entry where
  "emptyEntry =
     \<lparr>title = [], url = [], username = [], password = [], notes = [], otpAuth = [],
      domain = []\<rparr>"

text \<open>\<open>obj[prop] = value\<close>\<close>

fun setProp :: "field \<Rightarrow> string \<Rightarrow> entry \<Rightarrow> entry" where
  "setProp Title v obj = obj\<lparr>title := v\<rparr>"
| "setProp Url v obj = obj\<lparr>url := v\<rparr>"
| "setProp Username v obj = obj\<lparr>username := v\<rparr>"
| "setProp Password v obj = obj\<lparr>password := v\<rparr>"
| "setProp Notes v obj = obj\<lparr>notes := v\<rparr>"
| "setProp OtpAuth v obj = obj\<lparr>otpAuth := v\<rparr>"

text \<open>The loop over the columns of one row, from column \<open>col\<close> on.\<close>

fun mapFields :: "(nat \<rightharpoonup> field) \<Rightarrow> nat \<Rightarrow> string list \<Rightarrow> entry \<Rightarrow> entry" where
  "mapFields mapping col [] obj = obj"
| "mapFields mapping col (cell # cells) obj =
     (case mapping col of
        None \<Rightarrow> mapFields mapping (Suc col) cells obj
      | Some prop \<Rightarrow> mapFields mapping (Suc col) cells (setProp prop cell obj))"

definition makeEntry :: "(string \<Rightarrow> string option) \<Rightarrow> (nat \<rightharpoonup> field) \<Rightarrow> string list \<Rightarrow> entry" where
  "makeEntry urlHostname mapping row =
     (let obj = mapFields mapping 0 row emptyEntry;
          obj = obj\<lparr>url := normaliseUrl (url obj)\<rparr>;
          obj = obj\<lparr>domain := extractDomain urlHostname (url obj)\<rparr>
      in if username obj \<noteq> [] \<and> atsign \<in> set (username obj)
         then obj\<lparr>username := toLowerCase (username obj)\<rparr> else obj)"

section \<open>The file-to-records pipeline (\<open>parseFile\<close>)\<close>

text \<open>The loop over the rows after the header row; rows of empty cells are skipped.\<close>

fun parseRows ::
  "(string \<Rightarrow> string option) \<Rightarrow> (nat \<rightharpoonup> field) \<Rightarrow> string list list \<Rightarrow> entry list \<Rightarrow> entry list" where
  "parseRows urlHostname mapping [] list = list"
| "parseRows urlHostname mapping (row # rows) list =
     (if list_all (\<lambda>cell. cell = []) row then parseRows urlHostname mapping rows list
      else parseRows urlHostname mapping rows (list @ [makeEntry urlHostname mapping row]))"

text \<open>The \<open>onload\<close> handler of \<open>parseFile\<close>, on the text of the file.\<close>

definition parseFile :: "(string \<Rightarrow> string option) \<Rightarrow> string \<Rightarrow> entry list" where
  "parseFile urlHostname text =
     (case parseCSV text of
        [] \<Rightarrow> []
      | header # rows \<Rightarrow>
          let headers = map trim header;
              mapping = detectMapping headers
          in parseRows urlHostname mapping rows [])"

section \<open>The comparator (\<open>computeMissing\<close>)\<close>

definition entryKey :: "bool \<Rightarrow> entry \<Rightarrow> string" where
  "entryKey strict entry =
     (if strict then toLowerCase (url entry) @ [pipe] @ toLowerCase (username entry)
      else toLowerCase (domain entry) @ [pipe] @ toLowerCase (username entry))"

definition computeMissing :: "entry list \<Rightarrow> entry list \<Rightarrow> bool \<Rightarrow> entry list" where
  "computeMissing listA listB strict =
     (let keys = fold (\<lambda>entry keys. insert (entryKey strict entry) keys) listB {}
      in fold (\<lambda>entry missing.
                 if entryKey strict entry \<notin> keys then missing @ [entry] else missing)
           listA [])"

section \<open>The CSV serializer (\<open>generateCsv\<close>)\<close>

text \<open>The test \<open>/[,"\n]/\<close> and the replacement of every double quote by two.\<close>

definition needsQuotes :: "string \<Rightarrow> bool" where
  "needsQuotes str = list_ex (\<lambda>c. c = comma \<or> c = dquote \<or> c = newline) str"

definition doubleQuotes :: "string \<Rightarrow> string" where
  "doubleQuotes str = concat (map (\<lambda>c. if c = dquote then [dquote, dquote] else [c]) str)"

definition escape :: "string \<Rightarrow> string" where
  "escape str = (if needsQuotes str then [dquote] @ doubleQuotes str @ [dquote] else str)"

definition csvHeader :: string where
  "csvHeader = ''title,url,username,password,notes,otpAuth''"

definition csvLine :: "entry \<Rightarrow> string" where
  "csvLine entry =
     joinWith [comma]
       [escape (title entry), escape (url entry), escape (username entry),
        escape (password entry), escape (notes entry), []]"

definition generateCsv :: "entry list \<Rightarrow> string" where
  "generateCsv entries =
     joinWith [creturn, newline]
       (fold (\<lambda>entry lines. lines @ [csvLine entry]) entries [csvHeader])"

section \<open>The tokenizer on a quoted line\<close>

text \<open>
  C7. The text \<open>a,"b,c","d""e"\<close> followed by a newline is parsed into exactly one row
  with the three fields \<open>a\<close>, \<open>b,c\<close> and \<open>d"e\<close>: the doubled quote inside quotes gives
  one double quote, and the newline at the end gives no further row.
\<close>

theorem parseCSV_quoted_line:
  "parseCSV ([CHR ''a'', comma, dquote, CHR ''b'', comma, CHR ''c'', dquote, comma,
              dquote, CHR ''d'', dquote, dquote, CHR ''e'', dquote, newline])
   = [[[CHR ''a''], [CHR ''b'', comma, CHR ''c''], [CHR ''d'', dquote, CHR ''e'']]]"
  by (simp add: parseCSV_def dquote_def comma_def newline_def creturn_def)

section \<open>The comparator as a filter\<close>

lemma keys_fold:
  "fold (\<lambda>entry keys. insert (entryKey strict entry) keys) listB K
   = K \<union> entryKey strict ` set listB"
  by (induction listB arbitrary: K) auto

lemma missing_fold:
  "fold (\<lambda>entry missing. if P entry then missing @ [entry] else missing) listA acc
   = acc @ filter P listA"
  by (induction listA arbitrary: acc) auto

lemma computeMissing_filter:
  "computeMissing listA listB strict
   = filter (\<lambda>a. entryKey strict a \<notin> entryKey strict ` set listB) listA"
  by (simp add: computeMissing_def keys_fold missing_fold)

text \<open>
  C3. \<open>computeMissing listA listB strict\<close> is the list of the records of \<open>listA\<close>, in
  the order of \<open>listA\<close> and with their repetitions, whose key is the key of no record of
  \<open>listB\<close>. The key is the lower-cased url (strict) or domain (otherwise), the separator
  and the lower-cased username.
\<close>

theorem computeMissing_exact:
  "computeMissing listA listB strict
     = filter (\<lambda>a. entryKey strict a \<notin> set (map (entryKey strict) listB)) listA
   \<and> entryKey True e = toLowerCase (url e) @ [pipe] @ toLowerCase (username e)
   \<and> entryKey False e = toLowerCase (domain e) @ [pipe] @ toLowerCase (username e)"
  by (simp add: computeMissing_filter entryKey_def)

text \<open>
  C10. Comparing a list with itself gives the empty list, with either value of the
  strict flag.
\<close>

theorem computeMissing_self:
  "computeMissing l l strict = []"
  by (simp add: computeMissing_filter)

section \<open>The separator of the key\<close>

lemma toLowerCase_char_pipe: "toLowerCase_char c = pipe \<longleftrightarrow> c = pipe"
  by (cases c) (auto simp: toLowerCase_char_def isUpperCase_def pipe_def)

lemma pipe_toLowerCase: "pipe \<in> set (toLowerCase s) \<longleftrightarrow> pipe \<in> set s"
proof -
  have "pipe \<in> set (toLowerCase s) \<longleftrightarrow> (\<exists>c\<in>set s. toLowerCase_char c = pipe)"
    unfolding toLowerCase_def by (simp only: set_map image_iff) metis
  then show ?thesis
    by (simp add: toLowerCase_char_pipe)
qed

lemma append_sep_inj:
  "p \<notin> set x \<Longrightarrow> p \<notin> set x' \<Longrightarrow> x @ p # y = x' @ p # y' \<Longrightarrow> x = x' \<and> y = y'"
proof (induction x arbitrary: x')
  case Nil
  then show ?case by (cases x') auto
next
  case (Cons a x)
  then show ?case by (cases x') auto
qed

text \<open>
  C5, as the claim states it, fails: the separator is the character \<open>|\<close>, which a url
  or a username may contain. In strict mode these two records have the same key and
  different urls.
\<close>

theorem entryKey_not_injective:
  "entryKey True (emptyEntry\<lparr>url := ''https://a.com/x|y'', username := ''z''\<rparr>)
     = entryKey True (emptyEntry\<lparr>url := ''https://a.com/x'', username := ''y|z''\<rparr>)
   \<and> toLowerCase (url (emptyEntry\<lparr>url := ''https://a.com/x|y'', username := ''z''\<rparr>))
     \<noteq> toLowerCase (url (emptyEntry\<lparr>url := ''https://a.com/x'', username := ''y|z''\<rparr>))"
  by code_simp

text \<open>
  C5, amended. When the first component of the key (the url in strict mode, the domain
  otherwise) contains no \<open>|\<close> in either record, equal keys have equal lower-cased
  components.
\<close>

theorem entryKey_injective:
  assumes "pipe \<notin> set (if strict then url a else domain a)"
    and "pipe \<notin> set (if strict then url b else domain b)"
    and "entryKey strict a = entryKey strict b"
  shows "toLowerCase (if strict then url a else domain a)
           = toLowerCase (if strict then url b else domain b)
         \<and> toLowerCase (username a) = toLowerCase (username b)"
  using assms
    append_sep_inj[of pipe "toLowerCase (if strict then url a else domain a)"
      "toLowerCase (if strict then url b else domain b)"
      "toLowerCase (username a)" "toLowerCase (username b)"]
  by (simp add: entryKey_def pipe_toLowerCase split: if_splits)

theorem entryKey_injective_witness:
  "pipe \<notin> set (url (emptyEntry\<lparr>url := ''https://A.com'', username := ''Bob|1''\<rparr>))
   \<and> pipe \<notin> set (url (emptyEntry\<lparr>url := ''https://a.COM'', username := ''bOB|1''\<rparr>))
   \<and> entryKey True (emptyEntry\<lparr>url := ''https://A.com'', username := ''Bob|1''\<rparr>)
       = entryKey True (emptyEntry\<lparr>url := ''https://a.COM'', username := ''bOB|1''\<rparr>)
   \<and> toLowerCase (url (emptyEntry\<lparr>url := ''https://A.com'', username := ''Bob|1''\<rparr>))
       = toLowerCase (url (emptyEntry\<lparr>url := ''https://a.COM'', username := ''bOB|1''\<rparr>))
   \<and> toLowerCase (username (emptyEntry\<lparr>url := ''https://A.com'', username := ''Bob|1''\<rparr>))
       = toLowerCase (username (emptyEntry\<lparr>url := ''https://a.COM'', username := ''bOB|1''\<rparr>))"
proof -
  let ?a = "emptyEntry\<lparr>url := ''https://A.com'', username := ''Bob|1''\<rparr>"
  let ?b = "emptyEntry\<lparr>url := ''https://a.COM'', username := ''bOB|1''\<rparr>"
  have h1: "pipe \<notin> set (if True then url ?a else domain ?a)"
    by code_simp
  have h2: "pipe \<notin> set (if True then url ?b else domain ?b)"
    by code_simp
  have h3: "entryKey True ?a = entryKey True ?b"
    by code_simp
  from entryKey_injective [OF h1 h2 h3] h1 h2 h3 show ?thesis
    by simp
qed

section \<open>Normalizing a url twice\<close>

lemma rev_dropWhile_rev_prefix: "prefix (rev (dropWhile P (rev t))) t"
proof -
  have "rev t = takeWhile P (rev t) @ dropWhile P (rev t)" by simp
  then have "t = rev (dropWhile P (rev t)) @ rev (takeWhile P (rev t))"
    by (metis rev_append rev_rev_ident)
  then show ?thesis by (metis prefixI)
qed

lemma trim_hd: "trim s \<noteq> [] \<Longrightarrow> \<not> isWhiteSpace (hd (trim s))"
proof -
  assume ne: "trim s \<noteq> []"
  let ?t = "dropWhile isWhiteSpace s"
  have p: "prefix (trim s) ?t"
    unfolding trim_def by (rule rev_dropWhile_rev_prefix)
  with ne have "?t \<noteq> []" by (metis prefix_Nil)
  then have "\<not> isWhiteSpace (hd ?t)" by (rule hd_dropWhile)
  moreover from p ne have "hd (trim s) = hd ?t"
    by (auto simp: prefix_def)
  ultimately show ?thesis by simp
qed

lemma trim_id:
  "s \<noteq> [] \<Longrightarrow> \<not> isWhiteSpace (hd s) \<Longrightarrow> \<not> isWhiteSpace (last s) \<Longrightarrow> trim s = s"
proof -
  assume a: "s \<noteq> []" "\<not> isWhiteSpace (hd s)" "\<not> isWhiteSpace (last s)"
  then have 1: "dropWhile isWhiteSpace s = s" by (cases s) auto
  from a have "rev s \<noteq> []" "\<not> isWhiteSpace (hd (rev s))" by (auto simp: hd_rev)
  then have "dropWhile isWhiteSpace (rev s) = rev s" by (cases "rev s") auto
  with 1 show ?thesis by (simp add: trim_def)
qed

lemma matchesCI_h: "matchesCI (CHR ''h'') c \<Longrightarrow> \<not> isWhiteSpace c"
  by (auto simp: matchesCI_def isWhiteSpace_def)

lemma matchesCI_slash: "matchesCI (CHR ''/'') c \<longleftrightarrow> c = slash"
  by (auto simp: matchesCI_def slash_def)

lemma hasHttpScheme_hd: "hasHttpScheme s \<Longrightarrow> s \<noteq> [] \<and> \<not> isWhiteSpace (hd s)"
  by (cases s) (auto simp: hasHttpScheme_def matchesCI_h)

lemma startsWithCI_butlast:
  "startsWithCI p s \<Longrightarrow> length p < length s \<Longrightarrow> startsWithCI p (butlast s)"
  by (induction p s rule: startsWithCI.induct) auto

lemma startsWithCI_exact:
  "startsWithCI p s \<Longrightarrow> length s \<le> length p \<Longrightarrow> list_all2 matchesCI p s"
  by (induction p s rule: startsWithCI.induct) auto

lemma scheme_exact_butlast:
  assumes "startsWithCI (ps @ [CHR ''/'', CHR ''/'']) s" "length s \<le> length ps + 2"
  shows "butlast s \<noteq> [] \<and> last (butlast s) = slash"
proof -
  from assms have "list_all2 matchesCI (ps @ [CHR ''/'', CHR ''/'']) s"
    by (intro startsWithCI_exact) auto
  then obtain ss c d where "s = ss @ [c, d]" "matchesCI (CHR ''/'') c"
    by (auto simp: list_all2_append1 list_all2_Cons1)
  then show ?thesis by (simp add: matchesCI_slash butlast_append)
qed

lemma hasHttpScheme_butlast:
  assumes "hasHttpScheme s"
  shows "hasHttpScheme (butlast s) \<or> (butlast s \<noteq> [] \<and> last (butlast s) = slash)"
proof -
  have *: "hasHttpScheme (butlast s) \<or> (butlast s \<noteq> [] \<and> last (butlast s) = slash)"
    if "startsWithCI (ps @ [CHR ''/'', CHR ''/'']) s"
      and "ps = ''http:'' \<or> ps = ''https:''" for ps
  proof (cases "length (ps @ [CHR ''/'', CHR ''/'']) < length s")
    case True
    with that(1) have "startsWithCI (ps @ [CHR ''/'', CHR ''/'']) (butlast s)"
      by (rule startsWithCI_butlast)
    with that(2) show ?thesis by (auto simp: hasHttpScheme_def)
  next
    case False
    with that(1) show ?thesis using scheme_exact_butlast[of ps s] by simp
  qed
  from assms have "startsWithCI ''http://'' s \<or> startsWithCI ''https://'' s"
    by (simp add: hasHttpScheme_def)
  then show ?thesis
  proof
    assume "startsWithCI ''http://'' s"
    then have "startsWithCI (''http:'' @ [CHR ''/'', CHR ''/'']) s" by simp
    then show ?thesis by (rule *) simp
  next
    assume "startsWithCI ''https://'' s"
    then have "startsWithCI (''https:'' @ [CHR ''/'', CHR ''/'']) s" by simp
    then show ?thesis by (rule *) simp
  qed
qed

lemma hasHttpScheme_prepend: "hasHttpScheme (''https://'' @ t)"
  by (simp add: hasHttpScheme_def matchesCI_def)

lemma normaliseUrl_fixed:
  assumes "hasHttpScheme y" "last y \<noteq> slash" "\<not> isWhiteSpace (last y)"
  shows "normaliseUrl y = y"
proof -
  from assms(1) have "y \<noteq> []" "\<not> isWhiteSpace (hd y)"
    using hasHttpScheme_hd by auto
  with assms(3) have "trim y = y" by (simp add: trim_id)
  with assms \<open>y \<noteq> []\<close> show ?thesis
    by (simp add: normaliseUrl_def stripTrailingSlash_def)
qed

lemma normaliseUrl_empty: "trim x = [] \<Longrightarrow> normaliseUrl x = []"
  by (simp add: normaliseUrl_def stripTrailingSlash_def)

lemma trim_Nil: "trim [] = []"
  by (simp add: trim_def)

lemma normaliseUrl_scheme:
  "hasHttpScheme (trim x) \<Longrightarrow> normaliseUrl x = stripTrailingSlash (trim x)"
  using trim_Nil by (cases "x = []") (auto simp: normaliseUrl_def hasHttpScheme_def)

lemma normaliseUrl_noscheme:
  "trim x \<noteq> [] \<Longrightarrow> \<not> hasHttpScheme (trim x)
   \<Longrightarrow> normaliseUrl x = stripTrailingSlash (''https://'' @ trim x)"
  using trim_Nil by (cases "x = []") (simp_all add: normaliseUrl_def)

lemma normaliseUrl_cases:
  "normaliseUrl x = [] \<or> (\<exists>u. hasHttpScheme u \<and> normaliseUrl x = stripTrailingSlash u)"
proof (cases "trim x = []")
  case True
  then show ?thesis by (simp add: normaliseUrl_empty)
next
  case False
  show ?thesis
  proof (cases "hasHttpScheme (trim x)")
    case True
    then have "normaliseUrl x = stripTrailingSlash (trim x)" by (rule normaliseUrl_scheme)
    with True show ?thesis by blast
  next
    case no: False
    with False have "normaliseUrl x = stripTrailingSlash (''https://'' @ trim x)"
      by (rule normaliseUrl_noscheme)
    then show ?thesis using hasHttpScheme_prepend by blast
  qed
qed

text \<open>
  C4, as the claim states it, fails: one trailing slash is removed at each call, so a
  text that ends with two slashes changes at the second call.
\<close>

theorem normaliseUrl_not_idempotent:
  "normaliseUrl (normaliseUrl ''a//'') \<noteq> normaliseUrl ''a//''"
  by code_simp

text \<open>
  C4, amended. \<open>normaliseUrl (normaliseUrl x) = normaliseUrl x\<close> for every \<open>x\<close> whose
  normalized form is empty or ends neither with a slash nor with a white-space
  character.
\<close>

theorem normaliseUrl_idempotent:
  assumes "normaliseUrl x = [] \<or>
     (last (normaliseUrl x) \<noteq> slash \<and> \<not> isWhiteSpace (last (normaliseUrl x)))"
  shows "normaliseUrl (normaliseUrl x) = normaliseUrl x"
proof (cases "normaliseUrl x = []")
  case True
  then show ?thesis by (simp add: normaliseUrl_def)
next
  case False
  with assms have l: "last (normaliseUrl x) \<noteq> slash" "\<not> isWhiteSpace (last (normaliseUrl x))"
    by auto
  from False obtain u where u: "hasHttpScheme u" "normaliseUrl x = stripTrailingSlash u"
    using normaliseUrl_cases[of x] by auto
  have "hasHttpScheme (normaliseUrl x)"
  proof (cases "u \<noteq> [] \<and> last u = slash")
    case True
    with u have "normaliseUrl x = butlast u" by (simp add: stripTrailingSlash_def)
    with hasHttpScheme_butlast[OF u(1)] l show ?thesis by auto
  next
    case False
    with u show ?thesis by (auto simp: stripTrailingSlash_def)
  qed
  with l show ?thesis by (simp add: normaliseUrl_fixed)
qed

theorem normaliseUrl_idempotent_witness:
  "last (normaliseUrl '' Example.com/path/ '') \<noteq> slash
   \<and> \<not> isWhiteSpace (last (normaliseUrl '' Example.com/path/ ''))
   \<and> normaliseUrl '' Example.com/path/ '' = ''https://Example.com/path''
   \<and> normaliseUrl (normaliseUrl '' Example.com/path/ '') = normaliseUrl '' Example.com/path/ ''"
proof -
  have v: "normaliseUrl '' Example.com/path/ '' = ''https://Example.com/path''"
    by code_simp
  have h: "last (normaliseUrl '' Example.com/path/ '') \<noteq> slash
           \<and> \<not> isWhiteSpace (last (normaliseUrl '' Example.com/path/ ''))"
    by code_simp
  then have "normaliseUrl (normaliseUrl '' Example.com/path/ '') = normaliseUrl '' Example.com/path/ ''"
    by (intro normaliseUrl_idempotent disjI2)
  with h v show ?thesis by blast
qed

section \<open>The mapper on a French header row\<close>

text \<open>
  C6, as the claim states it, fails: no synonym of any field occurs in
  \<open>identifiant\<close>, so column 2 is not assigned to the username.
\<close>

theorem detectMapping_identifiant:
  "detectMapping [''Nom'', ''Site'', ''Identifiant'', ''Mot de passe'', ''extra''] 2
     \<noteq> Some Username"
  by code_simp

text \<open>
  C6, amended. On the headers \<open>Nom\<close>, \<open>Site\<close>, \<open>Identifiant\<close>, \<open>Mot de passe\<close>,
  \<open>extra\<close> the mapper assigns column 0 to the title, column 1 to the url and column 3
  to the password, and leaves the columns 2 and 4 unmapped.
\<close>

theorem detectMapping_french_headers:
  "detectMapping [''Nom'', ''Site'', ''Identifiant'', ''Mot de passe'', ''extra''] 0 = Some Title
   \<and> detectMapping [''Nom'', ''Site'', ''Identifiant'', ''Mot de passe'', ''extra''] 1 = Some Url
   \<and> detectMapping [''Nom'', ''Site'', ''Identifiant'', ''Mot de passe'', ''extra''] 2 = None
   \<and> detectMapping [''Nom'', ''Site'', ''Identifiant'', ''Mot de passe'', ''extra''] 3 = Some Password
   \<and> detectMapping [''Nom'', ''Site'', ''Identifiant'', ''Mot de passe'', ''extra''] 4 = None"
  by code_simp

section \<open>The shape of the serializer's output\<close>

lemma lines_fold:
  "fold (\<lambda>entry lines. lines @ [csvLine entry]) entries acc = acc @ map csvLine entries"
  by (induction entries arbitrary: acc) auto

lemma joinWith_snoc:
  "xs \<noteq> [] \<Longrightarrow> joinWith sep (xs @ [x]) = joinWith sep xs @ sep @ x"
  by (induction sep xs rule: joinWith.induct) auto

lemma generateCsv_Nil: "generateCsv [] = csvHeader"
  by (simp add: generateCsv_def)

lemma generateCsv_snoc:
  "generateCsv (entries @ [e]) = generateCsv entries @ [creturn, newline] @ csvLine e"
  using joinWith_snoc[of "csvHeader # map csvLine entries" "[creturn, newline]" "csvLine e"]
  by (simp add: generateCsv_def lines_fold)

lemma csvLine_eq:
  "csvLine e =
     escape (title e) @ [comma] @ escape (url e) @ [comma] @ escape (username e) @ [comma]
     @ escape (password e) @ [comma] @ escape (notes e) @ [comma]"
  by (simp add: csvLine_def)

lemma generateCsv_prefix: "prefix csvHeader (generateCsv entries)"
  by (induction entries rule: rev_induct) (simp_all add: generateCsv_Nil generateCsv_snoc)

lemma generateCsv_last:
  "last (generateCsv entries) = (if entries = [] then CHR ''h'' else comma)"
  by (cases entries rule: rev_cases)
    (simp_all add: generateCsv_Nil generateCsv_snoc csvLine_eq csvHeader_def)

lemma generateCsv_no_terminator: "\<not> suffix [creturn, newline] (generateCsv entries)"
proof
  assume "suffix [creturn, newline] (generateCsv entries)"
  then obtain pre where "generateCsv entries = pre @ [creturn, newline]"
    by (auto simp: suffix_def)
  then have "last (generateCsv entries) = newline" by simp
  then show False
    by (simp add: generateCsv_last newline_def comma_def split: if_splits)
qed

lemma escape_eq:
  "escape v =
     (if comma \<in> set v \<or> dquote \<in> set v \<or> newline \<in> set v
      then [dquote] @ concat (map (\<lambda>c. if c = dquote then [dquote, dquote] else [c]) v)
           @ [dquote]
      else v)"
  by (auto simp: escape_def needsQuotes_def doubleQuotes_def list_ex_iff)

text \<open>
  C8. A field is written between double quotes, with each of its double quotes doubled,
  exactly when it contains a comma, a double quote or a newline, and as it is otherwise.
  The output starts with the header line; each entry adds the separator \<open>\r\n\<close> and its
  line of five fields and an empty sixth one; nothing follows the last line.
\<close>

theorem generateCsv_shape:
  "escape v =
     (if comma \<in> set v \<or> dquote \<in> set v \<or> newline \<in> set v
      then [dquote] @ concat (map (\<lambda>c. if c = dquote then [dquote, dquote] else [c]) v)
           @ [dquote]
      else v)
   \<and> generateCsv [] = ''title,url,username,password,notes,otpAuth''
   \<and> generateCsv (entries @ [e]) =
       generateCsv entries @ [creturn, newline]
       @ escape (title e) @ [comma] @ escape (url e) @ [comma] @ escape (username e) @ [comma]
       @ escape (password e) @ [comma] @ escape (notes e) @ [comma]
   \<and> prefix ''title,url,username,password,notes,otpAuth'' (generateCsv entries)
   \<and> \<not> suffix [creturn, newline] (generateCsv entries)"
  using escape_eq[of v] generateCsv_Nil generateCsv_snoc[of entries e] csvLine_eq[of e]
    generateCsv_prefix[of entries] generateCsv_no_terminator[of entries]
  unfolding csvHeader_def by (intro conjI) simp_all

section \<open>What the mapper assigns to a column\<close>

lemma detectMapping_loop_snoc:
  "detectMapping_loop (hs @ [h]) idx st
   = detectHeader h (idx + length hs) (detectMapping_loop hs idx st)"
  by (induction hs arbitrary: idx st) auto

lemma detectHeader_eq:
  "detectHeader h idx (m, used) =
     (case firstMatch h of
        None \<Rightarrow> (m, used)
      | Some p \<Rightarrow> if p \<in> used then (m, used) else (m(idx \<mapsto> p), insert p used))"
  by (simp add: detectHeader_def firstMatch_def split: option.splits)

lemma used_snoc:
  "{p. \<exists>j<length (hs @ [h]). firstMatch ((hs @ [h]) ! j) = Some p}
   = {p. \<exists>j<length hs. firstMatch (hs ! j) = Some p} \<union> {p. firstMatch h = Some p}"
proof -
  have "(\<exists>j<length (hs @ [h]). firstMatch ((hs @ [h]) ! j) = Some p) \<longleftrightarrow>
        (\<exists>j<length hs. firstMatch (hs ! j) = Some p) \<or> firstMatch h = Some p" for p
  proof
    assume "\<exists>j<length (hs @ [h]). firstMatch ((hs @ [h]) ! j) = Some p"
    then obtain j where j: "j < Suc (length hs)" "firstMatch ((hs @ [h]) ! j) = Some p"
      by auto
    show "(\<exists>j<length hs. firstMatch (hs ! j) = Some p) \<or> firstMatch h = Some p"
    proof (cases "j < length hs")
      case True
      with j show ?thesis by (auto simp: nth_append)
    next
      case False
      with j have "j = length hs" by simp
      with j show ?thesis by simp
    qed
  next
    assume "(\<exists>j<length hs. firstMatch (hs ! j) = Some p) \<or> firstMatch h = Some p"
    then show "\<exists>j<length (hs @ [h]). firstMatch ((hs @ [h]) ! j) = Some p"
    proof
      assume "\<exists>j<length hs. firstMatch (hs ! j) = Some p"
      then obtain j where "j < length hs" "firstMatch (hs ! j) = Some p" by blast
      then have "j < length (hs @ [h]) \<and> firstMatch ((hs @ [h]) ! j) = Some p"
        by (simp add: nth_append)
      then show ?thesis by blast
    next
      assume "firstMatch h = Some p"
      then have "length hs < length (hs @ [h]) \<and> firstMatch ((hs @ [h]) ! length hs) = Some p"
        by simp
      then show ?thesis by blast
    qed
  qed
  then show ?thesis by blast
qed

lemma mappingInv_step:
  assumes inv: "mappingInv hs (m0, used0)"
  shows "mappingInv (hs @ [h]) (detectHeader h (length hs) (m0, used0))"
proof -
  from inv have ih1: "\<And>i p. m0 i = Some p \<longleftrightarrow>
        i < length hs \<and> firstMatch (hs ! i) = Some p \<and> (\<forall>j<i. firstMatch (hs ! j) \<noteq> Some p)"
    by (simp add: mappingInv_def)
  from inv have ih2: "used0 = {p. \<exists>j<length hs. firstMatch (hs ! j) = Some p}"
    by (simp add: mappingInv_def)
  have none: "m0 i = None" if "\<not> i < length hs" for i
    using ih1[of i] that by (cases "m0 i") auto
  have old: "(m0 i = Some p) \<longleftrightarrow>
        i < length (hs @ [h]) \<and> firstMatch ((hs @ [h]) ! i) = Some p
        \<and> (\<forall>j<i. firstMatch ((hs @ [h]) ! j) \<noteq> Some p)" if "i < length hs" for i p
  proof -
    from that have "\<And>j. j < i \<Longrightarrow> (hs @ [h]) ! j = hs ! j" by (simp add: nth_append)
    then have "(\<forall>j<i. firstMatch ((hs @ [h]) ! j) \<noteq> Some p)
        \<longleftrightarrow> (\<forall>j<i. firstMatch (hs ! j) \<noteq> Some p)" by simp
    with that ih1[of i p] show ?thesis by (simp add: nth_append)
  qed
  have last: "(\<forall>j<length hs. firstMatch ((hs @ [h]) ! j) \<noteq> Some p) \<longleftrightarrow> p \<notin> used0" for p
    unfolding ih2 by (auto simp: nth_append)
  define m used where "m = fst (detectHeader h (length hs) (m0, used0))"
    and "used = snd (detectHeader h (length hs) (m0, used0))"
  have m_old: "m i = m0 i" if "i \<noteq> length hs" for i
    using that unfolding m_def detectHeader_eq by (simp split: option.splits)
  have m_new: "m (length hs) = Some p \<longleftrightarrow> firstMatch h = Some p \<and> p \<notin> used0" for p
    using none[of "length hs"] unfolding m_def detectHeader_eq
    by (auto split: option.splits)
  have u: "used = used0 \<union> {p. firstMatch h = Some p}"
    unfolding used_def detectHeader_eq by (auto split: option.splits)
  have map: "m i = Some p \<longleftrightarrow>
        i < length (hs @ [h]) \<and> firstMatch ((hs @ [h]) ! i) = Some p
        \<and> (\<forall>j<i. firstMatch ((hs @ [h]) ! j) \<noteq> Some p)" for i p
  proof (cases "i < length hs")
    case True
    with old[OF True, of p] m_old[of i] show ?thesis by simp
  next
    case False
    show ?thesis
    proof (cases "i = length hs")
      case True
      with m_new[of p] last[of p] show ?thesis by simp
    next
      case neq: False
      with False have "\<not> i < length (hs @ [h])" by simp
      with m_old[OF neq] none[OF False] show ?thesis by simp
    qed
  qed
  from u have "used = {p. \<exists>j<length (hs @ [h]). firstMatch ((hs @ [h]) ! j) = Some p}"
    unfolding used_snoc ih2 by simp
  with map show ?thesis
    unfolding mappingInv_def m_def used_def by blast
qed

lemma detectMapping_loop_inv:
  "mappingInv hs (detectMapping_loop hs 0 (Map.empty, {}))"
proof (induction hs rule: rev_induct)
  case Nil
  show ?case by (simp add: mappingInv_def)
next
  case (snoc h hs)
  obtain m0 used0 where st: "detectMapping_loop hs 0 (Map.empty, {}) = (m0, used0)"
    by (cases "detectMapping_loop hs 0 (Map.empty, {})")
  with snoc.IH have "mappingInv hs (m0, used0)" by simp
  then have "mappingInv (hs @ [h]) (detectHeader h (length hs) (m0, used0))"
    by (rule mappingInv_step)
  with st show ?case by (simp add: detectMapping_loop_snoc)
qed

lemma detectMapping_iff:
  "detectMapping hs i = Some p \<longleftrightarrow>
     i < length hs \<and> firstMatch (hs ! i) = Some p \<and> (\<forall>j<i. firstMatch (hs ! j) \<noteq> Some p)"
proof -
  from detectMapping_loop_inv[of hs] show ?thesis
    unfolding mappingInv_def detectMapping_def by blast
qed

text \<open>
  C1. The claim: a header that contains a synonym of a field that no earlier header has
  claimed is assigned to the first such field. The code does not do so on the headers
  \<open>title\<close>, \<open>username\<close>: the second one contains \<open>username\<close>, which the table lists
  as a synonym of the field username, and no header has claimed that field; but it also
  contains \<open>name\<close>, a synonym of the title, the callback returns there, and the column
  is left unmapped. The same happens to the \<open>Username\<close> column of the header row
  \<open>Title\<close>, \<open>URL\<close>, \<open>Username\<close>, \<open>Password\<close>, \<open>Notes\<close>, \<open>OTPAuth\<close>.
\<close>

theorem detectMapping_username_unmapped:
  "fst (FIELD_SYNONYMS ! 2) = Username
   \<and> ''username'' \<in> set (snd (FIELD_SYNONYMS ! 2))
   \<and> includes_str (normalizeHeader ''username'') (normalizeHeader ''username'')
   \<and> detectMapping [''title'', ''username''] 0 = Some Title
   \<and> detectMapping [''title'', ''username''] 1 = None
   \<and> map (detectMapping [''Title'', ''URL'', ''Username'', ''Password'', ''Notes'', ''OTPAuth''])
         [0, 1, 2, 3, 4, 5]
       = [Some Title, Some Url, None, Some Password, Some Notes, Some OtpAuth]"
  by code_simp

section \<open>Passwords are carried through\<close>

lemma detectMapping_inj:
  assumes "detectMapping hs i = Some p" "detectMapping hs j = Some p"
  shows "i = j"
proof (rule ccontr)
  assume "i \<noteq> j"
  then consider "i < j" | "j < i" by linarith
  then show False
  proof cases
    case 1
    with assms show False unfolding detectMapping_iff by blast
  next
    case 2
    with assms show False unfolding detectMapping_iff by blast
  qed
qed

lemma password_setProp:
  "password (setProp prop v obj) = (if prop = Password then v else password obj)"
  by (cases "prop") simp_all

lemma mapFields_password:
  assumes "\<And>c. mapping c = Some Password \<Longrightarrow> c = k" and "mapping k = Some Password"
  shows "password (mapFields mapping col cells obj)
         = (if col \<le> k \<and> k < col + length cells then cells ! (k - col) else password obj)"
proof (induction cells arbitrary: col obj)
  case Nil
  show ?case by auto
next
  case (Cons cell cells)
  show ?case
  proof (cases "col = k")
    case True
    with assms(2) show ?thesis
      by (simp add: Cons.IH password_setProp)
  next
    case False
    with assms(1) have np: "mapping col \<noteq> Some Password" by blast
    have idx: "col \<le> k \<Longrightarrow> (cell # cells) ! (k - col) = cells ! (k - Suc col)"
      using False by (simp add: nth_Cons')
    have rng: "(Suc col \<le> k \<and> k < Suc col + length cells) \<longleftrightarrow> (col \<le> k \<and> k < col + length (cell # cells))"
      using False by auto
    show ?thesis
    proof (cases "mapping col")
      case None
      then show ?thesis using idx rng by (simp add: Cons.IH)
    next
      case (Some f)
      with np have "f \<noteq> Password" by simp
      with Some show ?thesis using idx rng by (simp add: Cons.IH password_setProp)
    qed
  qed
qed

lemma makeEntry_password:
  "password (makeEntry urlHostname mapping row) = password (mapFields mapping 0 row emptyEntry)"
  by (simp add: makeEntry_def Let_def)

lemma parseRows_eq:
  "parseRows urlHostname mapping rows list
   = list @ map (makeEntry urlHostname mapping)
              (filter (\<lambda>row. \<not> list_all (\<lambda>cell. cell = []) row) rows)"
  by (induction rows arbitrary: list) simp_all

lemma parseFile_password:
  assumes "parseCSV text = header # rows"
    and "detectMapping (map trim header) k = Some Password"
  shows "map password (parseFile urlHostname text)
         = map (\<lambda>row. if k < length row then row ! k else [])
             (filter (\<lambda>row. \<not> list_all (\<lambda>cell. cell = []) row) rows)"
proof -
  let ?m = "detectMapping (map trim header)"
  have uniq: "\<And>c. ?m c = Some Password \<Longrightarrow> c = k"
    using assms(2) by (rule detectMapping_inj[rotated])
  have "password (makeEntry urlHostname ?m row) = (if k < length row then row ! k else [])" for row
    using mapFields_password[of ?m k 0 row emptyEntry, OF uniq assms(2)]
    by (simp add: makeEntry_password emptyEntry_def)
  with assms(1) show ?thesis
    by (simp add: parseFile_def parseRows_eq Let_def)
qed

lemma entryKey_password: "entryKey strict (e\<lparr>password := p\<rparr>) = entryKey strict e"
  by (simp add: entryKey_def)

lemma keys_blank:
  "map (entryKey strict) (map (\<lambda>e. e\<lparr>password := []\<rparr>) l) = map (entryKey strict) l"
  by (simp add: entryKey_password)

lemma computeMissing_password:
  assumes "map (\<lambda>e. e\<lparr>password := []\<rparr>) listA = map (\<lambda>e. e\<lparr>password := []\<rparr>) listA'"
    and "map (\<lambda>e. e\<lparr>password := []\<rparr>) listB = map (\<lambda>e. e\<lparr>password := []\<rparr>) listB'"
  shows "\<exists>I. computeMissing listA listB strict = nths listA I
           \<and> computeMissing listA' listB' strict = nths listA' I"
proof -
  from assms(1) have ka: "map (entryKey strict) listA = map (entryKey strict) listA'"
    using keys_blank[of strict listA] keys_blank[of strict listA'] by simp
  from assms(2) have kb: "map (entryKey strict) listB = map (entryKey strict) listB'"
    using keys_blank[of strict listB] keys_blank[of strict listB'] by simp
  from ka have len: "length listA = length listA'"
    by (metis length_map)
  from ka have nth: "\<And>i. i < length listA \<Longrightarrow> entryKey strict (listA ! i) = entryKey strict (listA' ! i)"
    by (metis len nth_map)
  from kb have sb: "entryKey strict ` set listB = entryKey strict ` set listB'"
    by (metis set_map)
  let ?I = "{i. i < length listA \<and> entryKey strict (listA ! i) \<notin> entryKey strict ` set listB}"
  have "?I = {i. i < length listA' \<and> entryKey strict (listA' ! i) \<notin> entryKey strict ` set listB'}"
    using len nth sb by auto
  then have "computeMissing listA listB strict = nths listA ?I
           \<and> computeMissing listA' listB' strict = nths listA' ?I"
    by (simp add: computeMissing_filter filter_eq_nths)
  then show ?thesis by blast
qed

text \<open>
  C9. The password of every parsed record is the cell of its row in the column that the
  mapper assigns to the password, as the tokenizer gives it (the empty string when the
  row has no such cell). And when two runs of \<open>computeMissing\<close> get lists that differ
  in the passwords only, both results are the records of the first list at the same
  positions.
\<close>

theorem password_carried_through:
  "(parseCSV text = header # rows \<and> detectMapping (map trim header) k = Some Password
      \<longrightarrow> map password (parseFile urlHostname text)
           = map (\<lambda>row. if k < length row then row ! k else [])
               (filter (\<lambda>row. \<not> list_all (\<lambda>cell. cell = []) row) rows))
   \<and> (map (\<lambda>e. e\<lparr>password := []\<rparr>) listA = map (\<lambda>e. e\<lparr>password := []\<rparr>) listA'
        \<and> map (\<lambda>e. e\<lparr>password := []\<rparr>) listB = map (\<lambda>e. e\<lparr>password := []\<rparr>) listB'
      \<longrightarrow> (\<exists>I. computeMissing listA listB strict = nths listA I
                \<and> computeMissing listA' listB' strict = nths listA' I))"
  using parseFile_password computeMissing_password by blast


theorem password_carried_through_witness:
  "parseCSV (''user,password'' @ [newline] @ ''Bob, S3cret '' @ [newline])
     = [''user'', ''password''] # [[''Bob'', '' S3cret '']]
   \<and> detectMapping (map trim [''user'', ''password'']) 1 = Some Password
   \<and> map password
        (parseFile (\<lambda>_. None) (''user,password'' @ [newline] @ ''Bob, S3cret '' @ [newline]))
       = ['' S3cret '']
   \<and> map (\<lambda>e. e\<lparr>password := []\<rparr>) [emptyEntry\<lparr>username := ''bob'', password := ''one''\<rparr>]
       = map (\<lambda>e. e\<lparr>password := []\<rparr>) [emptyEntry\<lparr>username := ''bob'', password := ''two''\<rparr>]
   \<and> (\<exists>I. computeMissing [emptyEntry\<lparr>username := ''bob'', password := ''one''\<rparr>] [] True
              = nths [emptyEntry\<lparr>username := ''bob'', password := ''one''\<rparr>] I
            \<and> computeMissing [emptyEntry\<lparr>username := ''bob'', password := ''two''\<rparr>] [] True
              = nths [emptyEntry\<lparr>username := ''bob'', password := ''two''\<rparr>] I)"
proof -
  let ?text = "''user,password'' @ [newline] @ ''Bob, S3cret '' @ [newline]"
  have p: "parseCSV ?text = [''user'', ''password''] # [[''Bob'', '' S3cret '']]"
    by code_simp
  have d: "detectMapping (map trim [''user'', ''password'']) 1 = Some Password"
    by code_simp
  have a: "map (\<lambda>e. e\<lparr>password := []\<rparr>) [emptyEntry\<lparr>username := ''bob'', password := ''one''\<rparr>]
       = map (\<lambda>e. e\<lparr>password := []\<rparr>) [emptyEntry\<lparr>username := ''bob'', password := ''two''\<rparr>]"
    by simp
  have b: "map (\<lambda>e. e\<lparr>password := []\<rparr>) ([] :: entry list) = map (\<lambda>e. e\<lparr>password := []\<rparr>) []"
    by simp
  note t = password_carried_through [of ?text "[''user'', ''password'']" "[[''Bob'', '' S3cret '']]" 1 "\<lambda>_. None"
      "[emptyEntry\<lparr>username := ''bob'', password := ''one''\<rparr>]"
      "[emptyEntry\<lparr>username := ''bob'', password := ''two''\<rparr>]" "[]" "[]" True]
  from t p d have "map password (parseFile (\<lambda>_. None) ?text) = ['' S3cret '']"
    by simp
  moreover from t a b have "\<exists>I. computeMissing [emptyEntry\<lparr>username := ''bob'', password := ''one''\<rparr>] [] True
              = nths [emptyEntry\<lparr>username := ''bob'', password := ''one''\<rparr>] I
            \<and> computeMissing [emptyEntry\<lparr>username := ''bob'', password := ''two''\<rparr>] [] True
              = nths [emptyEntry\<lparr>username := ''bob'', password := ''two''\<rparr>] I"
    by blast
  ultimately show ?thesis using p d a by blast
qed


section \<open>Reading back what the serializer wrote\<close>

text \<open>
  C2. The claim: the pipeline on the serializer's output gives back the title, url,
  username, password and notes of every record. The code does not do so on the list of
  the one record below, whose url is normalized and whose fields contain no comma,
  double quote or newline: the tokenizer reads the row as it was written, with the
  username \<open>bob\<close>, but the mapper leaves the column \<open>username\<close> of the header row
  unmapped, and the record comes back with an empty username.
\<close>

theorem roundtrip_loses_username:
  "normaliseUrl ''https://example.com'' = ''https://example.com''
   \<and> parseCSV
        (generateCsv
           [\<lparr>title = ''Mail'', url = ''https://example.com'', username = ''bob'',
             password = ''pw'', notes = ''n'', otpAuth = [], domain = ''example.com''\<rparr>])
       = [[''title'', ''url'', ''username'', ''password'', ''notes'', ''otpAuth''],
          [''Mail'', ''https://example.com'', ''bob'', ''pw'', ''n'', []]]
   \<and> detectMapping
        (map trim [''title'', ''url'', ''username'', ''password'', ''notes'', ''otpAuth'']) 2
       = None
   \<and> map (\<lambda>e. (title e, url e, username e, password e, notes e))
        (parseFile (\<lambda>_. Some ''example.com'')
           (generateCsv
              [\<lparr>title = ''Mail'', url = ''https://example.com'', username = ''bob'',
                password = ''pw'', notes = ''n'', otpAuth = [], domain = ''example.com''\<rparr>]))
       = [(''Mail'', ''https://example.com'', [], ''pw'', ''n'')]"
  by code_simp

end
